theory Spec2Isabelle
  imports Main "HOL-Library.Multiset"
begin

section \<open>Data model of the BLS worker\<close>

text \<open>
  The worker function \<open>runBlsWorkReq\<close> receives an array of work requests. Each request
  carries its signature sets and the option \<open>opts.batchable\<close>. A signature set is opaque
  to the worker, so it is a type variable \<open>'set\<close>; the error value thrown by the
  verification primitive is a type variable \<open>'e\<close>.
\<close>

record VerifySignatureOpts =
  batchable :: bool

record 'set BlsWorkReq =
  opts :: VerifySignatureOpts
  sets :: "'set list"

text \<open>
  \<open>WorkResult\<close>: \<open>{code: WorkResultCode.success, result}\<close> or
  \<open>{code: WorkResultCode.error, error}\<close>.
\<close>

datatype 'e WorkResult = Success bool | Error 'e

text \<open>The items \<open>{idx, sets}\<close> of \<open>batchableSets\<close> and \<open>nonBatchableSets\<close>.\<close>

type_synonym 'set IdxSets = "nat \<times> 'set list"

record 'e BlsWorkResult =
  batchRetries :: nat
  batchSigsSuccess :: nat
  workerStartTime :: "nat \<times> nat"
  workerEndTime :: "nat \<times> nat"
  results :: "'e WorkResult option list"

text \<open>
  The local variables of \<open>runBlsWorkReq\<close> that its loops update: \<open>results\<close>,
  \<open>batchRetries\<close>, \<open>batchSigsSuccess\<close> and \<open>nonBatchableSets\<close>.
\<close>

record ('set, 'e) WorkState =
  st_results :: "'e WorkResult option list"
  st_batchRetries :: nat
  st_batchSigsSuccess :: nat
  st_nonBatchableSets :: "'set IdxSets list"

section \<open>JavaScript array assignment\<close>

text \<open>
  \<open>results\<close> starts as \<open>[]\<close> and is filled by \<open>results[idx] = v\<close>. Such an assignment
  overwrites position \<open>idx\<close> when it exists; otherwise the array grows to length
  \<open>idx + 1\<close>, and the positions in between are holes. A hole is \<open>None\<close>.
\<close>

definition assignIdx :: "'a option list \<Rightarrow> nat \<Rightarrow> 'a \<Rightarrow> 'a option list" where
  "assignIdx xs i v =
     (if i < length xs then xs[i := Some v]
      else xs @ replicate (i - length xs) None @ [Some v])"

text \<open>Reading \<open>results[i]\<close>: a hole or a position past the end reads as nothing.\<close>

definition resultAt :: "'a option list \<Rightarrow> nat \<Rightarrow> 'a option" where
  "resultAt xs i = (if i < length xs then xs ! i else None)"

section \<open>The worker\<close>

definition BATCHABLE_MIN_PER_CHUNK :: nat where
  "BATCHABLE_MIN_PER_CHUNK = 16"

text \<open>
  The first loop: request \<open>i\<close> is pushed, with its index, to \<open>batchableSets\<close> or to
  \<open>nonBatchableSets\<close>. The pair is (\<open>batchableSets\<close>, \<open>nonBatchableSets\<close>).
\<close>

definition splitStep ::
  "'set BlsWorkReq list \<Rightarrow> 'set IdxSets list \<times> 'set IdxSets list \<Rightarrow> nat
     \<Rightarrow> 'set IdxSets list \<times> 'set IdxSets list" where
  "splitStep workReqArr acc i =
     (let workReq = workReqArr ! i in
      if batchable (opts workReq)
      then (fst acc @ [(i, sets workReq)], snd acc)
      else (fst acc, snd acc @ [(i, sets workReq)]))"

definition splitSets ::
  "'set BlsWorkReq list \<Rightarrow> 'set IdxSets list \<times> 'set IdxSets list" where
  "splitSets workReqArr = foldl (splitStep workReqArr) ([], []) [0..<length workReqArr]"

text \<open>\<open>allSets\<close>: the sets of all items of a chunk, in order.\<close>

definition allSets :: "'set IdxSets list \<Rightarrow> 'set list" where
  "allSets batchableChunk = concat (map snd batchableChunk)"

text \<open>The body of the loop run when the whole batch is valid.\<close>

definition markSuccess ::
  "bool \<Rightarrow> ('set, 'e) WorkState \<Rightarrow> 'set IdxSets \<Rightarrow> ('set, 'e) WorkState" where
  "markSuccess isValid st item =
     st\<lparr>st_batchSigsSuccess := st_batchSigsSuccess st + length (snd item),
        st_results := assignIdx (st_results st) (fst item) (Success isValid)\<rparr>"

text \<open>
  One iteration of the loop over the chunks. The primitive \<open>asyncVerifySets\<close> is the
  parameter \<open>verify\<close>: \<open>Inr b\<close> when it returns \<open>b\<close>, \<open>Inl e\<close> when it throws \<open>e\<close>.
\<close>

definition tryBatch ::
  "('set list \<Rightarrow> 'e + bool) \<Rightarrow> ('set, 'e) WorkState \<Rightarrow> 'set IdxSets list
     \<Rightarrow> ('set, 'e) WorkState" where
  "tryBatch verify st batchableChunk =
     (case verify (allSets batchableChunk) of
        Inr isValid \<Rightarrow>
          if isValid then foldl (markSuccess isValid) st batchableChunk
          else st\<lparr>st_batchRetries := st_batchRetries st + 1,
                  st_nonBatchableSets := st_nonBatchableSets st @ batchableChunk\<rparr>
      | Inl e \<Rightarrow>
          st\<lparr>st_batchRetries := st_batchRetries st + 1,
             st_nonBatchableSets := st_nonBatchableSets st @ batchableChunk\<rparr>)"

text \<open>The verdict of one individual verification.\<close>

definition verdict :: "('set list \<Rightarrow> 'e + bool) \<Rightarrow> 'set list \<Rightarrow> 'e WorkResult" where
  "verdict verify ss = (case verify ss of Inr isValid \<Rightarrow> Success isValid | Inl e \<Rightarrow> Error e)"

text \<open>One iteration of the last loop, over \<open>nonBatchableSets\<close>.\<close>

definition verifyOne ::
  "('set list \<Rightarrow> 'e + bool) \<Rightarrow> ('set, 'e) WorkState \<Rightarrow> 'set IdxSets
     \<Rightarrow> ('set, 'e) WorkState" where
  "verifyOne verify st item =
     (case verify (snd item) of
        Inr isValid \<Rightarrow> st\<lparr>st_results := assignIdx (st_results st) (fst item) (Success isValid)\<rparr>
      | Inl e \<Rightarrow> st\<lparr>st_results := assignIdx (st_results st) (fst item) (Error e)\<rparr>)"

text \<open>
  The chunks that the batch loop goes through. The helper \<open>chunkifyMaximizeChunkSize\<close> is
  the parameter \<open>chunkify\<close>; it is called only when \<open>batchableSets\<close> is not empty, and
  otherwise the batch loop is skipped.
\<close>

definition batchableChunks ::
  "('set IdxSets list \<Rightarrow> nat \<Rightarrow> 'set IdxSets list list) \<Rightarrow> 'set BlsWorkReq list
     \<Rightarrow> 'set IdxSets list list" where
  "batchableChunks chunkify workReqArr =
     (let batchableSets = fst (splitSets workReqArr) in
      if length batchableSets > 0 then chunkify batchableSets BATCHABLE_MIN_PER_CHUNK else [])"

text \<open>
  The local variables after the split and the loop over the chunks: \<open>results\<close> is empty
  and both counters are zero when that loop starts.
\<close>

definition batchPhase ::
  "('set IdxSets list \<Rightarrow> nat \<Rightarrow> 'set IdxSets list list) \<Rightarrow> ('set list \<Rightarrow> 'e + bool)
     \<Rightarrow> 'set BlsWorkReq list \<Rightarrow> ('set, 'e) WorkState" where
  "batchPhase chunkify verify workReqArr =
     foldl (tryBatch verify)
       \<lparr>st_results = [], st_batchRetries = 0, st_batchSigsSuccess = 0,
        st_nonBatchableSets = snd (splitSets workReqArr)\<rparr>
       (batchableChunks chunkify workReqArr)"

text \<open>
  \<open>runBlsWorkReq\<close>: the split, the loop over the chunks, then the loop over
  \<open>nonBatchableSets\<close>. The two readings of \<open>process.hrtime()\<close> are inputs: \<open>startTime\<close>
  is read on entry and \<open>endTime\<close> after the last loop.
\<close>

definition runBlsWorkReq ::
  "('set IdxSets list \<Rightarrow> nat \<Rightarrow> 'set IdxSets list list) \<Rightarrow> ('set list \<Rightarrow> 'e + bool)
     \<Rightarrow> nat \<times> nat \<Rightarrow> nat \<times> nat \<Rightarrow> 'set BlsWorkReq list \<Rightarrow> 'e BlsWorkResult" where
  "runBlsWorkReq chunkify verify startTime endTime workReqArr =
     (let st1 = batchPhase chunkify verify workReqArr;
          st2 = foldl (verifyOne verify) st1 (st_nonBatchableSets st1)
      in \<lparr>batchRetries = st_batchRetries st2,
          batchSigsSuccess = st_batchSigsSuccess st2,
          workerStartTime = startTime,
          workerEndTime = endTime,
          results = st_results st2\<rparr>)"

section \<open>The chunker\<close>

text \<open>
  Modelled from the spec: \<open>chunkifyMaximizeChunkSize\<close> is imported from \<open>./utils.js\<close>,
  which is not among the sources. The spec gives each item a weight, the number of sets
  of its job.
\<close>

definition weight :: "'set IdxSets \<Rightarrow> nat" where
  "weight item = length (snd item)"

text \<open>
  Modelled from the spec: the total weight of a chunk, the sum of the set counts over its
  items (used by the absent \<open>chunkifyMaximizeChunkSize\<close>).
\<close>

definition chunkWeight :: "'set IdxSets list \<Rightarrow> nat" where
  "chunkWeight chunk = sum_list (map weight chunk)"

text \<open>
  Modelled from the spec: the greedy loop of the chunker ("start a chunk, accumulate
  items until weight \<ge> threshold, close the chunk, start the next"). \<open>cur\<close> is the open
  chunk and \<open>w\<close> its weight; items left over at the end form one undersized chunk.
\<close>

fun chunkifyFrom ::
  "nat \<Rightarrow> 'set IdxSets list \<Rightarrow> nat \<Rightarrow> 'set IdxSets list \<Rightarrow> 'set IdxSets list list" where
  "chunkifyFrom minPerChunk cur w [] = (if cur = [] then [] else [cur])"
| "chunkifyFrom minPerChunk cur w (x # xs) =
     (if w + weight x \<ge> minPerChunk
      then (cur @ [x]) # chunkifyFrom minPerChunk [] 0 xs
      else chunkifyFrom minPerChunk (cur @ [x]) (w + weight x) xs)"

text \<open>
  Modelled from the spec: \<open>chunkifyMaximizeChunkSize\<close> (absent from the sources), the
  chunker of the spec started with no open chunk.
\<close>

definition chunkifyMaximizeChunkSize ::
  "'set IdxSets list \<Rightarrow> nat \<Rightarrow> 'set IdxSets list list" where
  "chunkifyMaximizeChunkSize arr minPerChunk = chunkifyFrom minPerChunk [] 0 arr"

section \<open>Auxiliary notions for the statements\<close>

text \<open>A chunk passes when the primitive returns \<open>true\<close> on its sets.\<close>

definition batchOk :: "('set list \<Rightarrow> 'e + bool) \<Rightarrow> 'set IdxSets list \<Rightarrow> bool" where
  "batchOk verify chunk = (verify (allSets chunk) = Inr True)"

text \<open>A chunk fails when the primitive returns \<open>false\<close> or throws on its sets.\<close>

definition batchFailed :: "('set list \<Rightarrow> 'e + bool) \<Rightarrow> 'set IdxSets list \<Rightarrow> bool" where
  "batchFailed verify chunk = (\<not> batchOk verify chunk)"

text \<open>A sequence of assignments \<open>results[i] = v\<close>, done from left to right.\<close>

definition applyWrites :: "'a option list \<Rightarrow> (nat \<times> 'a) list \<Rightarrow> 'a option list" where
  "applyWrites rs ws = foldl (\<lambda>acc w. assignIdx acc (fst w) (snd w)) rs ws"

text \<open>The item \<open>{idx: i, sets: workReqArr[i].sets}\<close> of job \<open>i\<close>.\<close>

definition jobItem :: "'set BlsWorkReq list \<Rightarrow> nat \<Rightarrow> 'set IdxSets" where
  "jobItem workReqArr i = (i, sets (workReqArr ! i))"

text \<open>Job \<open>i\<close> has \<open>opts.batchable\<close> set.\<close>

definition isBatchable :: "'set BlsWorkReq list \<Rightarrow> nat \<Rightarrow> bool" where
  "isBatchable workReqArr i = batchable (opts (workReqArr ! i))"

text \<open>Job \<open>i\<close> does not have \<open>opts.batchable\<close> set.\<close>

definition notBatchable :: "'set BlsWorkReq list \<Rightarrow> nat \<Rightarrow> bool" where
  "notBatchable workReqArr i = (\<not> batchable (opts (workReqArr ! i)))"

text \<open>The items that the batch-success path writes a result for: the items of the chunks
  that pass, in order.\<close>

definition batchWritten ::
  "('set IdxSets list \<Rightarrow> nat \<Rightarrow> 'set IdxSets list list) \<Rightarrow> ('set list \<Rightarrow> 'e + bool)
     \<Rightarrow> 'set BlsWorkReq list \<Rightarrow> 'set IdxSets list" where
  "batchWritten chunkify verify workReqArr =
     concat (filter (batchOk verify) (batchableChunks chunkify workReqArr))"

text \<open>The items pushed to \<open>nonBatchableSets\<close> by the batch loop: the items of the failed
  chunks, in the order in which the chunks failed.\<close>

definition demotedItems ::
  "('set IdxSets list \<Rightarrow> nat \<Rightarrow> 'set IdxSets list list) \<Rightarrow> ('set list \<Rightarrow> 'e + bool)
     \<Rightarrow> 'set BlsWorkReq list \<Rightarrow> 'set IdxSets list" where
  "demotedItems chunkify verify workReqArr =
     concat (filter (batchFailed verify) (batchableChunks chunkify workReqArr))"

text \<open>The value of \<open>nonBatchableSets\<close> when the last loop starts. The loop verifies its items
  one by one, from front to back.\<close>

definition individualQueue ::
  "('set IdxSets list \<Rightarrow> nat \<Rightarrow> 'set IdxSets list list) \<Rightarrow> ('set list \<Rightarrow> 'e + bool)
     \<Rightarrow> 'set BlsWorkReq list \<Rightarrow> 'set IdxSets list" where
  "individualQueue chunkify verify workReqArr =
     st_nonBatchableSets (batchPhase chunkify verify workReqArr)"

text \<open>All assignments to \<open>results\<close> of one run, in the order in which they are done.\<close>

definition allWrites ::
  "('set IdxSets list \<Rightarrow> nat \<Rightarrow> 'set IdxSets list list) \<Rightarrow> ('set list \<Rightarrow> 'e + bool)
     \<Rightarrow> 'set BlsWorkReq list \<Rightarrow> (nat \<times> 'e WorkResult) list" where
  "allWrites chunkify verify workReqArr =
     map (\<lambda>it. (fst it, Success True)) (batchWritten chunkify verify workReqArr)
     @ map (\<lambda>it. (fst it, verdict verify (snd it))) (individualQueue chunkify verify workReqArr)"

text \<open>What the statements below ask of the chunker: its chunks, concatenated, are
  \<open>batchableSets\<close>.\<close>

definition chunkerCovers ::
  "('set IdxSets list \<Rightarrow> nat \<Rightarrow> 'set IdxSets list list) \<Rightarrow> 'set BlsWorkReq list \<Rightarrow> bool" where
  "chunkerCovers chunkify workReqArr =
     (concat (batchableChunks chunkify workReqArr) = fst (splitSets workReqArr))"

section \<open>Example inputs\<close>

text \<open>A work request with the given \<open>opts.batchable\<close> and sets.\<close>

definition job :: "bool \<Rightarrow> 'set list \<Rightarrow> 'set BlsWorkReq" where
  "job b ss = \<lparr>opts = \<lparr>batchable = b\<rparr>, sets = ss\<rparr>"

text \<open>A primitive for the examples: the sets are numbers, a set is valid when it is even,
  and the primitive throws on the set 7.\<close>

definition sampleVerify :: "nat list \<Rightarrow> string + bool" where
  "sampleVerify ss = (if 7 \<in> set ss then Inl ''malformed'' else Inr (list_all even ss))"

text \<open>A request of six jobs. Jobs 0 and 2 form a chunk of 17 valid sets; jobs 3 and 5 form
  a chunk with an invalid set; jobs 1 and 4 are not batchable.\<close>

definition sampleReq :: "nat BlsWorkReq list" where
  "sampleReq =
     [job True [2, 4, 6, 8, 10, 12, 14, 16, 18, 20], job False [2],
      job True [22, 24, 26, 28, 30, 32, 34], job True [3], job False [7], job True [8]]"

text \<open>A request without a batchable job.\<close>

definition soloReq :: "nat BlsWorkReq list" where
  "soloReq = [job False [2], job False [3], job False [7]]"

text \<open>Seventeen batchable jobs, each with one valid set.\<close>

definition req17 :: "nat BlsWorkReq list" where
  "req17 = map (\<lambda>i. job True [2 * i]) [0..<17]"

text \<open>Four batchable items of weights 10, 7, 1 and 2.\<close>

definition sampleItems :: "nat IdxSets list" where
  "sampleItems = [(0, [1, 2, 3, 4, 5, 6, 7, 8, 9, 10]), (1, [11, 12, 13, 14, 15, 16, 17]),
     (2, [18]), (3, [19, 20])]"

text \<open>A state of the batch loop.\<close>

definition sampleState :: "(nat, string) WorkState" where
  "sampleState = \<lparr>st_results = [Some (Success True)], st_batchRetries = 0,
     st_batchSigsSuccess = 10, st_nonBatchableSets = [(1, [2])]\<rparr>"

section \<open>Array assignment\<close>

lemma length_assignIdx: "length (assignIdx xs i v) = max (length xs) (Suc i)"
  by (simp add: assignIdx_def)

lemma resultAt_assignIdx:
  "resultAt (assignIdx xs i v) j = (if j = i then Some v else resultAt xs j)"
  by (auto simp: assignIdx_def resultAt_def nth_append)

lemma resultAt_Nil: "resultAt [] i = None"
  by (simp add: resultAt_def)

lemma applyWrites_Nil: "applyWrites rs [] = rs"
  by (simp add: applyWrites_def)

lemma applyWrites_Cons: "applyWrites rs (w # ws) = applyWrites (assignIdx rs (fst w) (snd w)) ws"
  by (simp add: applyWrites_def)

lemma applyWrites_append: "applyWrites rs (ws @ vs) = applyWrites (applyWrites rs ws) vs"
  by (simp add: applyWrites_def)

lemma length_applyWrites_le:
  "length rs \<le> n \<Longrightarrow> \<forall>w \<in> set ws. fst w < n \<Longrightarrow> length (applyWrites rs ws) \<le> n"
proof (induction ws arbitrary: rs)
  case Nil
  then show ?case by (simp add: applyWrites_Nil)
next
  case (Cons w ws)
  have "length (assignIdx rs (fst w) (snd w)) \<le> n"
    using Cons.prems by (simp add: length_assignIdx)
  then show ?case
    using Cons.IH Cons.prems(2) by (simp add: applyWrites_Cons)
qed

lemma resultAt_applyWrites_other:
  "j \<notin> fst ` set ws \<Longrightarrow> resultAt (applyWrites rs ws) j = resultAt rs j"
proof (induction ws arbitrary: rs)
  case Nil
  then show ?case by (simp add: applyWrites_Nil)
next
  case (Cons w ws)
  then show ?case by (simp add: applyWrites_Cons resultAt_assignIdx)
qed

lemma resultAt_applyWrites_mem:
  "distinct (map fst ws) \<Longrightarrow> (j, v) \<in> set ws \<Longrightarrow> resultAt (applyWrites rs ws) j = Some v"
proof (induction ws arbitrary: rs)
  case Nil
  then show ?case by simp
next
  case (Cons w ws)
  show ?case
  proof (cases "w = (j, v)")
    case True
    then have "j \<notin> fst ` set ws" using Cons.prems(1) by auto
    then show ?thesis
      using True by (simp add: applyWrites_Cons resultAt_applyWrites_other resultAt_assignIdx)
  next
    case False
    then have "(j, v) \<in> set ws" using Cons.prems(2) by simp
    moreover have "distinct (map fst ws)" using Cons.prems(1) by simp
    ultimately show ?thesis using Cons.IH by (simp add: applyWrites_Cons)
  qed
qed

lemma resultAt_applyWrites_cases:
  "resultAt (applyWrites rs ws) j = resultAt rs j
     \<or> (\<exists>v. (j, v) \<in> set ws \<and> resultAt (applyWrites rs ws) j = Some v)"
proof (induction ws arbitrary: rs rule: rev_induct)
  case Nil
  then show ?case by (simp add: applyWrites_Nil)
next
  case (snoc w ws)
  show ?case
  proof (cases "j = fst w")
    case True
    then have "resultAt (applyWrites rs (ws @ [w])) j = Some (snd w)"
      by (simp add: applyWrites_append applyWrites_Cons applyWrites_Nil resultAt_assignIdx)
    moreover have "(j, snd w) \<in> set (ws @ [w])" using True by (cases w) simp
    ultimately show ?thesis by blast
  next
    case False
    then have "resultAt (applyWrites rs (ws @ [w])) j = resultAt (applyWrites rs ws) j"
      by (simp add: applyWrites_append applyWrites_Cons applyWrites_Nil resultAt_assignIdx)
    then show ?thesis using snoc.IH [of rs] by auto
  qed
qed

lemma applyWrites_upt:
  "applyWrites [] (map (\<lambda>i. (i, f i)) [0..<n]) = map (\<lambda>i. Some (f i)) [0..<n]"
proof (induction n)
  case 0
  then show ?case by (simp add: applyWrites_Nil)
next
  case (Suc n)
  then show ?case
    by (simp add: applyWrites_append applyWrites_Cons applyWrites_Nil assignIdx_def)
qed

section \<open>The split of the request array\<close>

lemma splitSets_upto:
  "k \<le> length req \<Longrightarrow>
   foldl (splitStep req) ([], []) [0..<k] =
     (map (\<lambda>i. (i, sets (req ! i))) (filter (\<lambda>i. batchable (opts (req ! i))) [0..<k]),
      map (\<lambda>i. (i, sets (req ! i))) (filter (\<lambda>i. \<not> batchable (opts (req ! i))) [0..<k]))"
  by (induction k) (simp_all add: splitStep_def Let_def)

lemma splitSets_eq:
  "splitSets req =
     (map (jobItem req) (filter (isBatchable req) [0..<length req]),
      map (jobItem req) (filter (notBatchable req) [0..<length req]))"
  unfolding splitSets_def jobItem_def isBatchable_def notBatchable_def
  by (rule splitSets_upto) simp

lemma splitSets_all_batchable:
  assumes "\<forall>r \<in> set req. batchable (opts r)"
  shows "splitSets req = (map (jobItem req) [0..<length req], [])"
proof -
  have "filter (isBatchable req) [0..<length req] = [0..<length req]"
    using assms by (auto simp: isBatchable_def filter_id_conv)
  moreover have "filter (notBatchable req) [0..<length req] = []"
    using assms by (auto simp: notBatchable_def filter_empty_conv)
  ultimately show ?thesis by (simp add: splitSets_eq)
qed

lemma splitSets_none_batchable:
  assumes "\<forall>r \<in> set req. \<not> batchable (opts r)"
  shows "splitSets req = ([], map (jobItem req) [0..<length req])"
proof -
  have "filter (notBatchable req) [0..<length req] = [0..<length req]"
    using assms by (auto simp: notBatchable_def filter_id_conv)
  moreover have "filter (isBatchable req) [0..<length req] = []"
    using assms by (auto simp: isBatchable_def filter_empty_conv)
  ultimately show ?thesis by (simp add: splitSets_eq)
qed

lemma mset_split_indices:
  "mset (filter (isBatchable req) xs) + mset (filter (notBatchable req) xs) = mset xs"
  by (induction xs) (simp_all add: isBatchable_def notBatchable_def)

section \<open>The loops as sequences of assignments\<close>

lemma batchFailed_iff:
  "batchFailed verify c \<longleftrightarrow> (verify (allSets c) = Inr False \<or> (\<exists>e. verify (allSets c) = Inl e))"
proof (cases "verify (allSets c)")
  case (Inl e)
  then show ?thesis by (simp add: batchFailed_def batchOk_def)
next
  case (Inr b)
  then show ?thesis by (cases b) (simp_all add: batchFailed_def batchOk_def)
qed

lemma foldl_markSuccess:
  "foldl (markSuccess b) st c =
     st\<lparr>st_batchSigsSuccess := st_batchSigsSuccess st + chunkWeight c,
        st_results := applyWrites (st_results st) (map (\<lambda>it. (fst it, Success b)) c)\<rparr>"
  by (induction c arbitrary: st)
     (simp_all add: markSuccess_def chunkWeight_def weight_def applyWrites_Nil applyWrites_Cons)

lemma tryBatch_ok:
  "batchOk verify c \<Longrightarrow> tryBatch verify st c =
     st\<lparr>st_batchSigsSuccess := st_batchSigsSuccess st + chunkWeight c,
        st_results := applyWrites (st_results st) (map (\<lambda>it. (fst it, Success True)) c)\<rparr>"
  by (simp add: tryBatch_def batchOk_def foldl_markSuccess)

lemma tryBatch_fail:
  "batchFailed verify c \<Longrightarrow> tryBatch verify st c =
     st\<lparr>st_batchRetries := st_batchRetries st + 1,
        st_nonBatchableSets := st_nonBatchableSets st @ c\<rparr>"
  by (auto simp: tryBatch_def batchOk_def batchFailed_def split: sum.splits)

lemma foldl_tryBatch:
  "foldl (tryBatch verify) st cs =
     st\<lparr>st_results := applyWrites (st_results st)
          (map (\<lambda>it. (fst it, Success True)) (concat (filter (batchOk verify) cs))),
        st_batchRetries := st_batchRetries st + length (filter (batchFailed verify) cs),
        st_batchSigsSuccess := st_batchSigsSuccess st
          + sum_list (map chunkWeight (filter (batchOk verify) cs)),
        st_nonBatchableSets := st_nonBatchableSets st
          @ concat (filter (batchFailed verify) cs)\<rparr>"
proof (induction cs arbitrary: st)
  case Nil
  then show ?case by (simp add: applyWrites_Nil)
next
  case (Cons c cs)
  show ?case
  proof (cases "batchOk verify c")
    case True
    then have "\<not> batchFailed verify c" by (simp add: batchFailed_def)
    then show ?thesis
      using True by (simp add: Cons.IH tryBatch_ok applyWrites_append)
  next
    case False
    then have "batchFailed verify c" by (simp add: batchFailed_def)
    then show ?thesis
      using False by (simp add: Cons.IH tryBatch_fail)
  qed
qed

lemma foldl_verifyOne:
  "foldl (verifyOne verify) st items =
     st\<lparr>st_results := applyWrites (st_results st)
          (map (\<lambda>it. (fst it, verdict verify (snd it))) items)\<rparr>"
proof (induction items arbitrary: st)
  case Nil
  then show ?case by (simp add: applyWrites_Nil)
next
  case (Cons it items)
  have "verifyOne verify st it =
          st\<lparr>st_results := assignIdx (st_results st) (fst it) (verdict verify (snd it))\<rparr>"
    by (simp add: verifyOne_def verdict_def split: sum.splits)
  then show ?case by (simp add: Cons.IH applyWrites_Cons)
qed

lemma verifyOne_batchSigsSuccess:
  "st_batchSigsSuccess (foldl (verifyOne verify) st items) = st_batchSigsSuccess st"
  by (simp add: foldl_verifyOne)

lemma batchPhase_eq:
  "batchPhase chunkify verify req =
     \<lparr>st_results = applyWrites [] (map (\<lambda>it. (fst it, Success True)) (batchWritten chunkify verify req)),
      st_batchRetries = length (filter (batchFailed verify) (batchableChunks chunkify req)),
      st_batchSigsSuccess =
        sum_list (map chunkWeight (filter (batchOk verify) (batchableChunks chunkify req))),
      st_nonBatchableSets = snd (splitSets req) @ demotedItems chunkify verify req\<rparr>"
  by (simp add: batchPhase_def foldl_tryBatch batchWritten_def demotedItems_def)

lemma individualQueue_eq:
  "individualQueue chunkify verify req = snd (splitSets req) @ demotedItems chunkify verify req"
  by (simp add: individualQueue_def batchPhase_eq)

lemma run_results:
  "results (runBlsWorkReq chunkify verify t0 t1 req) = applyWrites [] (allWrites chunkify verify req)"
  by (simp add: runBlsWorkReq_def Let_def foldl_verifyOne allWrites_def applyWrites_append
      individualQueue_def batchPhase_eq)

lemma run_batchRetries:
  "batchRetries (runBlsWorkReq chunkify verify t0 t1 req) =
     length (filter (batchFailed verify) (batchableChunks chunkify req))"
  by (simp add: runBlsWorkReq_def Let_def foldl_verifyOne batchPhase_eq)

lemma run_batchSigsSuccess:
  "batchSigsSuccess (runBlsWorkReq chunkify verify t0 t1 req) =
     sum_list (map chunkWeight (filter (batchOk verify) (batchableChunks chunkify req)))"
  by (simp add: runBlsWorkReq_def Let_def foldl_verifyOne batchPhase_eq)

lemma chunkWeight_allSets: "chunkWeight c = length (allSets c)"
  by (induction c) (simp_all add: chunkWeight_def allSets_def weight_def)

lemma chunkWeight_fun: "chunkWeight = (\<lambda>c. length (allSets c))"
  by (rule ext) (rule chunkWeight_allSets)

section \<open>Every index is written once\<close>

lemma mset_concat_filter:
  "mset (concat (filter (batchOk verify) cs)) + mset (concat (filter (batchFailed verify) cs))
     = mset (concat cs)"
  by (induction cs) (simp_all add: batchFailed_def)

lemma mset_written_demoted:
  "mset (batchWritten chunkify verify req) + mset (demotedItems chunkify verify req)
     = mset (concat (batchableChunks chunkify req))"
  unfolding batchWritten_def demotedItems_def
  by (rule mset_concat_filter)

lemma mset_items:
  assumes "chunkerCovers chunkify req"
  shows "mset (batchWritten chunkify verify req @ individualQueue chunkify verify req)
           = mset (map (jobItem req) [0..<length req])"
proof -
  have "mset (batchWritten chunkify verify req @ individualQueue chunkify verify req)
          = (mset (batchWritten chunkify verify req) + mset (demotedItems chunkify verify req))
            + mset (snd (splitSets req))"
    by (simp add: individualQueue_eq)
  also have "\<dots> = mset (fst (splitSets req)) + mset (snd (splitSets req))"
    using assms by (simp only: mset_written_demoted chunkerCovers_def)
  also have "\<dots> = image_mset (jobItem req) (mset (filter (isBatchable req) [0..<length req])
                     + mset (filter (notBatchable req) [0..<length req]))"
    by (simp add: splitSets_eq)
  also have "mset (filter (isBatchable req) [0..<length req])
               + mset (filter (notBatchable req) [0..<length req]) = mset [0..<length req]"
    by (rule mset_split_indices)
  finally show ?thesis by simp
qed

lemma items_idx:
  assumes "chunkerCovers chunkify req"
  shows "mset (map fst (batchWritten chunkify verify req @ individualQueue chunkify verify req))
           = mset [0..<length req]"
proof -
  have "map fst (map (jobItem req) [0..<length req]) = [0..<length req]"
    by (simp add: jobItem_def comp_def)
  then show ?thesis
    using mset_items [OF assms, of verify]
    by (metis mset_map)
qed

lemma writes_idx:
  "map fst (allWrites chunkify verify req)
     = map fst (batchWritten chunkify verify req @ individualQueue chunkify verify req)"
  by (simp add: allWrites_def comp_def)

lemma writes_distinct:
  assumes "chunkerCovers chunkify req"
  shows "distinct (map fst (allWrites chunkify verify req))"
proof -
  have "mset (map fst (allWrites chunkify verify req)) = mset [0..<length req]"
    by (simp only: writes_idx items_idx [OF assms])
  then show ?thesis
    by (metis distinct_upt mset_eq_imp_distinct_iff)
qed

lemma writes_idx_set:
  assumes "chunkerCovers chunkify req"
  shows "set (map fst (allWrites chunkify verify req)) = {..<length req}"
proof -
  have "mset (map fst (allWrites chunkify verify req)) = mset [0..<length req]"
    by (simp only: writes_idx items_idx [OF assms])
  then have "set (map fst (allWrites chunkify verify req)) = set [0..<length req]"
    by (rule mset_eq_setD)
  then show ?thesis by (simp add: lessThan_atLeast0)
qed

lemma items_are_jobs:
  assumes "chunkerCovers chunkify req"
    and "it \<in> set (batchWritten chunkify verify req @ individualQueue chunkify verify req)"
  shows "fst it < length req \<and> snd it = sets (req ! fst it)"
proof -
  have "set (batchWritten chunkify verify req @ individualQueue chunkify verify req)
          = set (map (jobItem req) [0..<length req])"
    using mset_items [OF assms(1), of verify] by (rule mset_eq_setD)
  then have "it \<in> set (map (jobItem req) [0..<length req])" using assms(2) by simp
  then show ?thesis by (auto simp: jobItem_def)
qed

lemma run_length:
  assumes "chunkerCovers chunkify req"
  shows "length (results (runBlsWorkReq chunkify verify t0 t1 req)) = length req"
proof -
  let ?W = "allWrites chunkify verify req"
  let ?rs = "applyWrites [] ?W"
  have idx: "set (map fst ?W) = {..<length req}" by (rule writes_idx_set [OF assms])
  have "\<forall>w \<in> set ?W. fst w < length req" using idx by auto
  then have le: "length ?rs \<le> length req" by (simp add: length_applyWrites_le)
  have "length req \<le> length ?rs"
  proof (cases "length req")
    case 0
    then show ?thesis by simp
  next
    case (Suc m)
    then have "m \<in> set (map fst ?W)" using idx by simp
    then obtain v where "(m, v) \<in> set ?W" by auto
    then have "resultAt ?rs m = Some v"
      using writes_distinct [OF assms, of verify] by (simp add: resultAt_applyWrites_mem)
    then have "m < length ?rs" by (simp add: resultAt_def split: if_splits)
    then show ?thesis using Suc by simp
  qed
  then show ?thesis using le by (simp add: run_results)
qed

lemma run_batch_result:
  assumes "chunkerCovers chunkify req"
    and "it \<in> set (batchWritten chunkify verify req)"
  shows "resultAt (results (runBlsWorkReq chunkify verify t0 t1 req)) (fst it) = Some (Success True)"
proof -
  have "(fst it, Success True) \<in> set (allWrites chunkify verify req)"
    using assms(2) by (auto simp: allWrites_def)
  then show ?thesis
    using writes_distinct [OF assms(1), of verify]
    by (simp add: run_results resultAt_applyWrites_mem)
qed

lemma run_individual_result:
  assumes "chunkerCovers chunkify req"
    and "it \<in> set (individualQueue chunkify verify req)"
  shows "resultAt (results (runBlsWorkReq chunkify verify t0 t1 req)) (fst it)
           = Some (verdict verify (snd it))"
proof -
  have "(fst it, verdict verify (snd it)) \<in> set (allWrites chunkify verify req)"
    using assms(2) by (auto simp: allWrites_def)
  then show ?thesis
    using writes_distinct [OF assms(1), of verify]
    by (simp add: run_results resultAt_applyWrites_mem)
qed

lemma run_result_origin:
  assumes "resultAt (results (runBlsWorkReq chunkify verify t0 t1 req)) i = Some r"
  shows "(r = Success True \<and> i \<in> fst ` set (batchWritten chunkify verify req))
       \<or> (\<exists>ss. (i, ss) \<in> set (individualQueue chunkify verify req) \<and> r = verdict verify ss)"
proof -
  let ?W = "allWrites chunkify verify req"
  have r: "resultAt (applyWrites [] ?W) i = Some r"
    using assms by (simp add: run_results)
  have "resultAt (applyWrites [] ?W) i \<noteq> resultAt [] i"
    using r by (simp add: resultAt_Nil)
  then have "\<exists>v. (i, v) \<in> set ?W \<and> resultAt (applyWrites [] ?W) i = Some v"
    using resultAt_applyWrites_cases [of "[]" ?W i] by blast
  then have "(i, r) \<in> set ?W" using r by auto
  then show ?thesis by (auto simp: allWrites_def)
qed

section \<open>Properties of the chunker\<close>

lemma concat_chunkifyFrom: "concat (chunkifyFrom t cur w xs) = cur @ xs"
  by (induction xs arbitrary: cur w) simp_all

lemma chunkifyFrom_weights:
  "w = chunkWeight cur \<Longrightarrow> c \<in> set (butlast (chunkifyFrom t cur w xs)) \<Longrightarrow> t \<le> chunkWeight c"
proof (induction xs arbitrary: cur w)
  case Nil
  then show ?case by (simp split: if_splits)
next
  case (Cons x xs)
  show ?case
  proof (cases "t \<le> w + weight x")
    case True
    have cw: "chunkWeight (cur @ [x]) = w + weight x"
      using Cons.prems(1) by (simp add: chunkWeight_def)
    from Cons.prems(2) True
    have "c = cur @ [x] \<or> c \<in> set (butlast (chunkifyFrom t [] 0 xs))"
      by (auto split: if_splits)
    then show ?thesis
    proof
      assume "c = cur @ [x]"
      then show ?thesis using cw True by simp
    next
      assume "c \<in> set (butlast (chunkifyFrom t [] 0 xs))"
      then show ?thesis using Cons.IH [of 0 "[]"] by (simp add: chunkWeight_def)
    qed
  next
    case False
    then have "c \<in> set (butlast (chunkifyFrom t (cur @ [x]) (w + weight x) xs))"
      using Cons.prems(2) by simp
    moreover have "w + weight x = chunkWeight (cur @ [x])"
      using Cons.prems(1) by (simp add: chunkWeight_def)
    ultimately show ?thesis using Cons.IH by blast
  qed
qed

lemma chunkifyFrom_nonempty: "c \<in> set (chunkifyFrom t cur w xs) \<Longrightarrow> c \<noteq> []"
  by (induction xs arbitrary: cur w) (auto split: if_splits)

lemma chunker_covers: "chunkerCovers chunkifyMaximizeChunkSize req"
  by (simp add: chunkerCovers_def batchableChunks_def Let_def chunkifyMaximizeChunkSize_def
      concat_chunkifyFrom)

lemma chunkWeight_unit: "\<forall>x \<in> set xs. weight x = 1 \<Longrightarrow> chunkWeight xs = length xs"
  by (induction xs) (simp_all add: chunkWeight_def)

lemma chunkifyFrom_short:
  "w + chunkWeight xs < t \<Longrightarrow>
   chunkifyFrom t cur w xs = (if cur @ xs = [] then [] else [cur @ xs])"
  by (induction xs arbitrary: cur w) (simp_all add: chunkWeight_def)

lemma chunkifyFrom_unit:
  "\<forall>x \<in> set xs. weight x = 1 \<Longrightarrow> w < t \<Longrightarrow> t \<le> w + length xs \<Longrightarrow>
   chunkifyFrom t cur w xs = (cur @ take (t - w) xs) # chunkifyFrom t [] 0 (drop (t - w) xs)"
proof (induction xs arbitrary: cur w)
  case Nil
  then show ?case by simp
next
  case (Cons x xs)
  have wx: "weight x = 1" using Cons.prems(1) by simp
  show ?case
  proof (cases "t \<le> w + 1")
    case True
    then have "t - w = 1" using Cons.prems(2) by simp
    then show ?thesis using True wx by simp
  next
    case False
    then have lt: "w + 1 < t" by simp
    have "chunkifyFrom t (cur @ [x]) (w + 1) xs
            = ((cur @ [x]) @ take (t - (w + 1)) xs) # chunkifyFrom t [] 0 (drop (t - (w + 1)) xs)"
      using Cons.prems lt by (intro Cons.IH) simp_all
    moreover have "t - w = Suc (t - (w + 1))" using lt by simp
    ultimately show ?thesis using False wx by simp
  qed
qed

lemma seventeen_chunks:
  assumes "length arr = 17" and "\<forall>x \<in> set arr. weight x = 1"
  shows "chunkifyMaximizeChunkSize arr 16 = [take 16 arr, drop 16 arr]"
proof -
  have one: "\<forall>x \<in> set (drop 16 arr). weight x = 1"
    using assms(2) by (auto dest: in_set_dropD)
  have "length (drop 16 arr) = 1" using assms(1) by simp
  then have w: "chunkWeight (drop 16 arr) = 1" using chunkWeight_unit [OF one] by simp
  have ne: "drop 16 arr \<noteq> []" using assms(1) by simp
  have "chunkifyFrom 16 [] 0 arr = ([] @ take (16 - 0) arr) # chunkifyFrom 16 [] 0 (drop (16 - 0) arr)"
    using assms by (intro chunkifyFrom_unit) simp_all
  moreover have "chunkifyFrom 16 [] 0 (drop 16 arr) = [drop 16 arr]"
    using chunkifyFrom_short [of 0 "drop 16 arr" 16 "[]"] w ne by simp
  ultimately show ?thesis by (simp add: chunkifyMaximizeChunkSize_def)
qed

section \<open>The sample request, evaluated\<close>

lemma sample_split:
  "splitSets sampleReq =
     ([(0, [2, 4, 6, 8, 10, 12, 14, 16, 18, 20]), (2, [22, 24, 26, 28, 30, 32, 34]),
       (3, [3]), (5, [8])],
      [(1, [2]), (4, [7])])"
  by (simp add: splitSets_def sampleReq_def job_def splitStep_def upt_rec)

lemma sample_chunks:
  "batchableChunks chunkifyMaximizeChunkSize sampleReq =
     [[(0, [2, 4, 6, 8, 10, 12, 14, 16, 18, 20]), (2, [22, 24, 26, 28, 30, 32, 34])],
      [(3, [3]), (5, [8])]]"
  by (simp add: batchableChunks_def sample_split chunkifyMaximizeChunkSize_def
      BATCHABLE_MIN_PER_CHUNK_def weight_def)

lemma sample_ok:
  "batchOk sampleVerify [(0, [2, 4, 6, 8, 10, 12, 14, 16, 18, 20]), (2, [22, 24, 26, 28, 30, 32, 34])]"
  "\<not> batchOk sampleVerify [(3, [3]), (5, [8])]"
  by (simp_all add: batchOk_def sampleVerify_def allSets_def)

lemma sample_failed:
  "\<not> batchFailed sampleVerify
       [(0, [2, 4, 6, 8, 10, 12, 14, 16, 18, 20]), (2, [22, 24, 26, 28, 30, 32, 34])]"
  "batchFailed sampleVerify [(3, [3]), (5, [8])]"
  by (simp_all add: batchFailed_def sample_ok)

lemma sample_written:
  "batchWritten chunkifyMaximizeChunkSize sampleVerify sampleReq =
     [(0, [2, 4, 6, 8, 10, 12, 14, 16, 18, 20]), (2, [22, 24, 26, 28, 30, 32, 34])]"
  by (simp add: batchWritten_def sample_chunks sample_ok)

lemma sample_demoted:
  "demotedItems chunkifyMaximizeChunkSize sampleVerify sampleReq = [(3, [3]), (5, [8])]"
  by (simp add: demotedItems_def sample_chunks sample_failed)

lemma sample_queue:
  "individualQueue chunkifyMaximizeChunkSize sampleVerify sampleReq =
     [(1, [2]), (4, [7]), (3, [3]), (5, [8])]"
  by (simp add: individualQueue_eq sample_split sample_demoted)

lemma sample_results:
  "results (runBlsWorkReq chunkifyMaximizeChunkSize sampleVerify t0 t1 sampleReq) =
     [Some (Success True), Some (Success True), Some (Success True), Some (Success False),
      Some (Error ''malformed''), Some (Success True)]"
  by (simp add: run_results allWrites_def sample_written sample_queue applyWrites_def
      assignIdx_def verdict_def sampleVerify_def)

section \<open>The claims\<close>

text \<open>
  C1: when the chunks cover the batchable items, the results array has the length of the
  request array. It is the outcome of one assignment per item written by the batch-success
  path followed by one assignment per item of the individual queue; the indices of these
  items are pairwise distinct and are exactly the indices of the request array, so every
  index is assigned exactly once, by exactly one of the two paths. The value at index
  \<open>i\<close> is \<open>Success true\<close> when job \<open>i\<close> was written by the batch-success path, and
  otherwise the verdict of the primitive on the sets of job \<open>i\<close>.
\<close>

theorem results_complete:
  assumes "chunkerCovers chunkify req"
  shows "length (results (runBlsWorkReq chunkify verify t0 t1 req)) = length req
    \<and> results (runBlsWorkReq chunkify verify t0 t1 req)
        = applyWrites [] (allWrites chunkify verify req)
    \<and> distinct (map fst (batchWritten chunkify verify req @ individualQueue chunkify verify req))
    \<and> set (map fst (batchWritten chunkify verify req @ individualQueue chunkify verify req))
        = {..<length req}
    \<and> (\<forall>i<length req.
          (jobItem req i \<in> set (batchWritten chunkify verify req)
             \<and> results (runBlsWorkReq chunkify verify t0 t1 req) ! i = Some (Success True))
        \<or> (jobItem req i \<in> set (individualQueue chunkify verify req)
             \<and> results (runBlsWorkReq chunkify verify t0 t1 req) ! i
                 = Some (verdict verify (sets (req ! i)))))"
proof (intro conjI allI impI)
  let ?R = "runBlsWorkReq chunkify verify t0 t1 req"
  show len: "length (results ?R) = length req" by (rule run_length [OF assms])
  show "results ?R = applyWrites [] (allWrites chunkify verify req)" by (rule run_results)
  show "distinct (map fst (batchWritten chunkify verify req @ individualQueue chunkify verify req))"
    using writes_distinct [OF assms, of verify] by (simp only: writes_idx)
  show "set (map fst (batchWritten chunkify verify req @ individualQueue chunkify verify req))
          = {..<length req}"
    using writes_idx_set [OF assms, of verify] by (simp only: writes_idx)
  fix i assume i: "i < length req"
  have "jobItem req i \<in> set (map (jobItem req) [0..<length req])" using i by simp
  then have "jobItem req i
               \<in> set (batchWritten chunkify verify req @ individualQueue chunkify verify req)"
    using mset_items [OF assms, of verify] by (metis mset_eq_setD)
  then consider (b) "jobItem req i \<in> set (batchWritten chunkify verify req)"
    | (n) "jobItem req i \<in> set (individualQueue chunkify verify req)" by auto
  then show "(jobItem req i \<in> set (batchWritten chunkify verify req)
             \<and> results ?R ! i = Some (Success True))
        \<or> (jobItem req i \<in> set (individualQueue chunkify verify req)
             \<and> results ?R ! i = Some (verdict verify (sets (req ! i))))"
  proof cases
    case b
    have "resultAt (results ?R) (fst (jobItem req i)) = Some (Success True)"
      by (rule run_batch_result [OF assms b])
    then show ?thesis using b i len by (simp add: resultAt_def jobItem_def)
  next
    case n
    have "resultAt (results ?R) (fst (jobItem req i))
            = Some (verdict verify (snd (jobItem req i)))"
      by (rule run_individual_result [OF assms n])
    then show ?thesis using n i len by (simp add: resultAt_def jobItem_def)
  qed
qed

theorem results_complete_witness:
  "chunkerCovers chunkifyMaximizeChunkSize sampleReq
   \<and> length (results (runBlsWorkReq chunkifyMaximizeChunkSize sampleVerify (0, 0) (0, 5) sampleReq)) = 6
   \<and> map fst (batchWritten chunkifyMaximizeChunkSize sampleVerify sampleReq
        @ individualQueue chunkifyMaximizeChunkSize sampleVerify sampleReq) = [0, 2, 1, 4, 3, 5]
   \<and> results (runBlsWorkReq chunkifyMaximizeChunkSize sampleVerify (0, 0) (0, 5) sampleReq) ! 3
       = Some (Success False)"
proof -
  have h: "chunkerCovers chunkifyMaximizeChunkSize sampleReq"
    by (simp add: chunkerCovers_def sample_chunks sample_split)
  have l: "length sampleReq = 6" by (simp add: sampleReq_def)
  have "length (results (runBlsWorkReq chunkifyMaximizeChunkSize sampleVerify (0, 0) (0, 5) sampleReq))
          = length sampleReq"
    using results_complete [OF h, of sampleVerify "(0, 0)" "(0, 5)"] by (rule conjunct1)
  then show ?thesis
    using h l by (simp add: sample_written sample_queue sample_results)
qed

text \<open>
  C2: when the primitive returns \<open>false\<close> or throws on the sets of a chunk, the iteration
  for that chunk adds one to \<open>batchRetries\<close>, appends the items of the chunk to
  \<open>nonBatchableSets\<close> and changes nothing else, so \<open>results\<close> is left as it was. When the
  chunks cover the batchable items, every item of such a chunk stands for a job of the
  request, is in the individual queue, is not written by the batch-success path, and its
  final result is the verdict of the primitive on the sets of that job alone.
\<close>

theorem batch_failure_fallback:
  assumes "chunkerCovers chunkify req"
    and "c \<in> set (batchableChunks chunkify req)"
    and "verify (allSets c) = Inr False \<or> (\<exists>e. verify (allSets c) = Inl e)"
  shows "tryBatch verify st c =
           st\<lparr>st_batchRetries := st_batchRetries st + 1,
              st_nonBatchableSets := st_nonBatchableSets st @ c\<rparr>
    \<and> st_results (tryBatch verify st c) = st_results st
    \<and> (\<forall>it \<in> set c.
          it \<in> set (individualQueue chunkify verify req)
        \<and> fst it \<notin> fst ` set (batchWritten chunkify verify req)
        \<and> fst it < length req \<and> snd it = sets (req ! fst it)
        \<and> results (runBlsWorkReq chunkify verify t0 t1 req) ! fst it
            = Some (verdict verify (snd it)))"
proof (intro conjI ballI)
  let ?R = "runBlsWorkReq chunkify verify t0 t1 req"
  have failed: "batchFailed verify c" using assms(3) by (simp add: batchFailed_iff)
  show step: "tryBatch verify st c =
           st\<lparr>st_batchRetries := st_batchRetries st + 1,
              st_nonBatchableSets := st_nonBatchableSets st @ c\<rparr>"
    by (rule tryBatch_fail [OF failed])
  show "st_results (tryBatch verify st c) = st_results st" by (simp add: step)
  fix it assume it: "it \<in> set c"
  then have "it \<in> set (demotedItems chunkify verify req)"
    using assms(2) failed by (auto simp: demotedItems_def)
  then show q: "it \<in> set (individualQueue chunkify verify req)"
    by (simp add: individualQueue_eq)
  have "distinct (map fst (batchWritten chunkify verify req @ individualQueue chunkify verify req))"
    using writes_distinct [OF assms(1), of verify] by (simp only: writes_idx)
  then have "fst ` set (batchWritten chunkify verify req)
               \<inter> fst ` set (individualQueue chunkify verify req) = {}"
    by simp
  then show "fst it \<notin> fst ` set (batchWritten chunkify verify req)" using q by blast
  have job: "fst it < length req \<and> snd it = sets (req ! fst it)"
    using items_are_jobs [OF assms(1), of it verify] q by simp
  then show "fst it < length req" and "snd it = sets (req ! fst it)" by simp_all
  have "resultAt (results ?R) (fst it) = Some (verdict verify (snd it))"
    by (rule run_individual_result [OF assms(1) q])
  then show "results ?R ! fst it = Some (verdict verify (snd it))"
    using job run_length [OF assms(1), of verify t0 t1] by (simp add: resultAt_def)
qed

theorem batch_failure_fallback_witness:
  "chunkerCovers chunkifyMaximizeChunkSize sampleReq
   \<and> [(3, [3]), (5, [8])] \<in> set (batchableChunks chunkifyMaximizeChunkSize sampleReq)
   \<and> sampleVerify (allSets [(3, [3]), (5, [8])]) = Inr False
   \<and> tryBatch sampleVerify sampleState [(3, [3]), (5, [8])] =
       \<lparr>st_results = [Some (Success True)], st_batchRetries = 1,
        st_batchSigsSuccess = 10, st_nonBatchableSets = [(1, [2]), (3, [3]), (5, [8])]\<rparr>
   \<and> results (runBlsWorkReq chunkifyMaximizeChunkSize sampleVerify (0, 0) (0, 5) sampleReq) ! 3
       = Some (Success False)"
proof -
  have h1: "chunkerCovers chunkifyMaximizeChunkSize sampleReq"
    by (simp add: chunkerCovers_def sample_chunks sample_split)
  have h2: "[(3, [3]), (5, [8])] \<in> set (batchableChunks chunkifyMaximizeChunkSize sampleReq)"
    by (simp add: sample_chunks)
  have h3: "sampleVerify (allSets [(3, [3]), (5, [8])]) = Inr False"
    by (simp add: sampleVerify_def allSets_def)
  have h3': "sampleVerify (allSets [(3, [3]), (5, [8])]) = Inr False
               \<or> (\<exists>e. sampleVerify (allSets [(3, [3]), (5, [8])]) = Inl e)"
    using h3 by simp
  have "tryBatch sampleVerify sampleState [(3, [3]), (5, [8])] =
          sampleState\<lparr>st_batchRetries := st_batchRetries sampleState + 1,
             st_nonBatchableSets := st_nonBatchableSets sampleState @ [(3, [3]), (5, [8])]\<rparr>"
    using batch_failure_fallback
      [where verify = sampleVerify and st = sampleState and ?t0.0 = "(0, 0)" and ?t1.0 = "(0, 5)",
        OF h1 h2 h3']
    by (rule conjunct1)
  then show ?thesis
    using h1 h2 h3 by (simp add: sampleState_def sample_results)
qed

text \<open>
  C3: for every list of batchable items, the chunks produced with threshold 16 concatenate
  to the input list, so no item is split, dropped or reordered, within a chunk or across
  chunks; every chunk except possibly the last has total weight at least 16; and no
  chunk is empty.
\<close>

theorem chunker_weight_law:
  "concat (chunkifyMaximizeChunkSize arr 16) = arr
   \<and> (\<forall>c \<in> set (butlast (chunkifyMaximizeChunkSize arr 16)). 16 \<le> chunkWeight c)
   \<and> (\<forall>c \<in> set (chunkifyMaximizeChunkSize arr 16). c \<noteq> [])"
proof (intro conjI ballI)
  show "concat (chunkifyMaximizeChunkSize arr 16) = arr"
    by (simp add: chunkifyMaximizeChunkSize_def concat_chunkifyFrom)
next
  fix c assume "c \<in> set (butlast (chunkifyMaximizeChunkSize arr 16))"
  then show "16 \<le> chunkWeight c"
    using chunkifyFrom_weights [of 0 "[]" c 16 arr]
    by (simp add: chunkifyMaximizeChunkSize_def chunkWeight_def)
next
  fix c assume "c \<in> set (chunkifyMaximizeChunkSize arr 16)"
  then show "c \<noteq> []"
    using chunkifyFrom_nonempty [of c 16 "[]" 0 arr]
    by (simp add: chunkifyMaximizeChunkSize_def)
qed

theorem chunker_weight_law_witness:
  "concat (chunkifyMaximizeChunkSize sampleItems 16) = sampleItems
   \<and> butlast (chunkifyMaximizeChunkSize sampleItems 16) = [take 2 sampleItems]
   \<and> chunkWeight (take 2 sampleItems) = 17
   \<and> chunkifyMaximizeChunkSize sampleItems 16 = [take 2 sampleItems, drop 2 sampleItems]"
proof -
  have c: "chunkifyMaximizeChunkSize sampleItems 16 = [take 2 sampleItems, drop 2 sampleItems]"
    by (simp add: chunkifyMaximizeChunkSize_def sampleItems_def weight_def)
  have w: "chunkWeight (take 2 sampleItems) = 17"
    by (simp add: sampleItems_def chunkWeight_def weight_def)
  show ?thesis
    using chunker_weight_law [of sampleItems] c w by simp
qed

text \<open>
  C4: a request of exactly 17 batchable jobs, each carrying one valid set, is cut into
  exactly two chunks, of weight 16 and of weight 1. Both batches succeed, so
  \<open>batchSigsSuccess = 17\<close> and \<open>batchRetries = 0\<close>. A set is valid when \<open>valid\<close> holds
  of it, and the primitive returns \<open>true\<close> on every list of valid sets.
\<close>

theorem chunker_boundary_17:
  assumes "length req = 17"
    and "\<forall>r \<in> set req. batchable (opts r) \<and> (\<exists>s. sets r = [s] \<and> valid s)"
    and "\<forall>ss. list_all valid ss \<longrightarrow> verify ss = Inr True"
  shows "length (batchableChunks chunkifyMaximizeChunkSize req) = 2
    \<and> map chunkWeight (batchableChunks chunkifyMaximizeChunkSize req) = [16, 1]
    \<and> batchSigsSuccess (runBlsWorkReq chunkifyMaximizeChunkSize verify t0 t1 req) = 17
    \<and> batchRetries (runBlsWorkReq chunkifyMaximizeChunkSize verify t0 t1 req) = 0"
proof -
  let ?arr = "map (jobItem req) [0..<length req]"
  have split: "splitSets req = (?arr, [])"
    using assms(2) by (intro splitSets_all_batchable) simp
  have item: "weight x = 1 \<and> list_all valid (snd x)" if "x \<in> set ?arr" for x
  proof -
    from that obtain i where i: "i < length req" and x: "x = jobItem req i" by auto
    then have "req ! i \<in> set req" by simp
    then obtain s where "sets (req ! i) = [s]" and "valid s" using assms(2) by blast
    then show ?thesis using x by (simp add: jobItem_def weight_def)
  qed
  have len: "length ?arr = 17" using assms(1) by simp
  have "batchableChunks chunkifyMaximizeChunkSize req = chunkifyMaximizeChunkSize ?arr 16"
    using assms(1) by (simp add: batchableChunks_def Let_def split BATCHABLE_MIN_PER_CHUNK_def)
  also have "\<dots> = [take 16 ?arr, drop 16 ?arr]"
    using item by (intro seventeen_chunks [OF len]) blast
  finally have chunks:
    "batchableChunks chunkifyMaximizeChunkSize req = [take 16 ?arr, drop 16 ?arr]" .
  have unit_take: "\<forall>x \<in> set (take 16 ?arr). weight x = 1"
    using item by (meson in_set_takeD)
  have unit_drop: "\<forall>x \<in> set (drop 16 ?arr). weight x = 1"
    using item by (meson in_set_dropD)
  have w1: "chunkWeight (take 16 ?arr) = 16"
    using chunkWeight_unit [OF unit_take] len by (simp del: upt_Suc map_upt_Suc)
  have w2: "chunkWeight (drop 16 ?arr) = 1"
    using chunkWeight_unit [OF unit_drop] len by (simp del: upt_Suc map_upt_Suc)
  have ok: "batchOk verify c" if "set c \<subseteq> set ?arr" for c
  proof -
    have "list_all valid (allSets c)"
      using that item by (auto simp: allSets_def list_all_iff)
    then show ?thesis using assms(3) by (simp add: batchOk_def)
  qed
  have ok1: "batchOk verify (take 16 ?arr)" by (rule ok) (rule set_take_subset)
  have ok2: "batchOk verify (drop 16 ?arr)" by (rule ok) (rule set_drop_subset)
  have nf1: "\<not> batchFailed verify (take 16 ?arr)" using ok1 by (simp add: batchFailed_def)
  have nf2: "\<not> batchFailed verify (drop 16 ?arr)" using ok2 by (simp add: batchFailed_def)
  have "batchSigsSuccess (runBlsWorkReq chunkifyMaximizeChunkSize verify t0 t1 req) = 17"
    by (simp only: run_batchSigsSuccess chunks) (simp add: ok1 ok2 w1 w2 del: upt_Suc map_upt_Suc)
  moreover have "batchRetries (runBlsWorkReq chunkifyMaximizeChunkSize verify t0 t1 req) = 0"
    by (simp only: run_batchRetries chunks) (simp add: nf1 nf2 del: upt_Suc map_upt_Suc)
  moreover have "map chunkWeight (batchableChunks chunkifyMaximizeChunkSize req) = [16, 1]"
    by (simp only: chunks) (simp add: w1 w2 del: upt_Suc map_upt_Suc)
  moreover have "length (batchableChunks chunkifyMaximizeChunkSize req) = 2"
    by (simp only: chunks) simp
  ultimately show ?thesis by blast
qed

theorem chunker_boundary_17_witness:
  "length req17 = 17
   \<and> length (batchableChunks chunkifyMaximizeChunkSize req17) = 2
   \<and> map chunkWeight (batchableChunks chunkifyMaximizeChunkSize req17) = [16, 1]
   \<and> batchSigsSuccess (runBlsWorkReq chunkifyMaximizeChunkSize sampleVerify (0, 0) (0, 5) req17) = 17
   \<and> batchRetries (runBlsWorkReq chunkifyMaximizeChunkSize sampleVerify (0, 0) (0, 5) req17) = 0"
proof -
  have h1: "length req17 = 17" by (simp add: req17_def)
  have h2: "\<forall>r \<in> set req17. batchable (opts r) \<and> (\<exists>s. sets r = [s] \<and> even s)"
    by (auto simp: req17_def job_def simp del: upt_Suc)
  have h3: "\<forall>ss. list_all even ss \<longrightarrow> sampleVerify ss = Inr True"
  proof (intro allI impI)
    fix ss :: "nat list"
    assume "list_all even ss"
    then have "7 \<notin> set ss" by (auto simp: list_all_iff)
    then show "sampleVerify ss = Inr True"
      using \<open>list_all even ss\<close> by (simp add: sampleVerify_def)
  qed
  show ?thesis
    using h1 chunker_boundary_17 [OF h1 h2 h3, of "(0, 0)" "(0, 5)"] by simp
qed

text \<open>
  C5: for a job of the individual queue, when the chunks cover the batchable items: if
  the primitive returns \<open>false\<close> on its sets the result is \<open>Success false\<close>, and if the
  primitive throws \<open>e\<close> the result is \<open>Error e\<close>. The results array has the length of the
  request array whatever the primitive does, and an \<open>Error e\<close> at any index \<open>j\<close> comes
  from the primitive throwing \<open>e\<close> on the sets of an item with index \<open>j\<close> of the queue.
\<close>

theorem individual_phase_verdicts:
  assumes "chunkerCovers chunkify req"
    and "(i, ss) \<in> set (individualQueue chunkify verify req)"
  shows "(verify ss = Inr False \<longrightarrow>
            results (runBlsWorkReq chunkify verify t0 t1 req) ! i = Some (Success False))
    \<and> (\<forall>e. verify ss = Inl e \<longrightarrow>
            results (runBlsWorkReq chunkify verify t0 t1 req) ! i = Some (Error e))
    \<and> length (results (runBlsWorkReq chunkify verify t0 t1 req)) = length req
    \<and> (\<forall>j e. resultAt (results (runBlsWorkReq chunkify verify t0 t1 req)) j = Some (Error e)
          \<longrightarrow> (\<exists>ss'. (j, ss') \<in> set (individualQueue chunkify verify req) \<and> verify ss' = Inl e))"
proof (intro conjI allI impI)
  let ?R = "runBlsWorkReq chunkify verify t0 t1 req"
  show len: "length (results ?R) = length req" by (rule run_length [OF assms(1)])
  have "i < length req" using items_are_jobs [OF assms(1), of "(i, ss)" verify] assms(2) by simp
  moreover have "resultAt (results ?R) i = Some (verdict verify ss)"
    using run_individual_result [OF assms, of t0 t1] by simp
  ultimately have r: "results ?R ! i = Some (verdict verify ss)"
    using len by (simp add: resultAt_def)
  show "results ?R ! i = Some (Success False)" if "verify ss = Inr False"
    using r that by (simp add: verdict_def)
  show "results ?R ! i = Some (Error e)" if "verify ss = Inl e" for e
    using r that by (simp add: verdict_def)
  fix j e assume "resultAt (results ?R) j = Some (Error e)"
  then obtain ss' where "(j, ss') \<in> set (individualQueue chunkify verify req)"
      and "Error e = verdict verify ss'"
    using run_result_origin [of chunkify verify t0 t1 req j "Error e"] by auto
  moreover from this have "verify ss' = Inl e"
    by (simp add: verdict_def split: sum.splits)
  ultimately show "\<exists>ss'. (j, ss') \<in> set (individualQueue chunkify verify req) \<and> verify ss' = Inl e"
    by blast
qed

theorem individual_phase_verdicts_witness:
  "chunkerCovers chunkifyMaximizeChunkSize sampleReq
   \<and> (3, [3]) \<in> set (individualQueue chunkifyMaximizeChunkSize sampleVerify sampleReq)
   \<and> sampleVerify [3] = Inr False
   \<and> results (runBlsWorkReq chunkifyMaximizeChunkSize sampleVerify (0, 0) (0, 5) sampleReq) ! 3
       = Some (Success False)
   \<and> sampleVerify [7] = Inl ''malformed''
   \<and> results (runBlsWorkReq chunkifyMaximizeChunkSize sampleVerify (0, 0) (0, 5) sampleReq) ! 4
       = Some (Error ''malformed'')
   \<and> length (results (runBlsWorkReq chunkifyMaximizeChunkSize sampleVerify (0, 0) (0, 5) sampleReq))
       = 6"
proof -
  have h1: "chunkerCovers chunkifyMaximizeChunkSize sampleReq"
    by (simp add: chunkerCovers_def sample_chunks sample_split)
  have h2: "(3, [3]) \<in> set (individualQueue chunkifyMaximizeChunkSize sampleVerify sampleReq)"
    by (simp add: sample_queue)
  have h3: "sampleVerify [3] = Inr False" by (simp add: sampleVerify_def)
  have "sampleVerify [3] = Inr False \<longrightarrow>
          results (runBlsWorkReq chunkifyMaximizeChunkSize sampleVerify (0, 0) (0, 5) sampleReq) ! 3
            = Some (Success False)"
    using individual_phase_verdicts [OF h1 h2, of "(0, 0)" "(0, 5)"] by (rule conjunct1)
  then have "results (runBlsWorkReq chunkifyMaximizeChunkSize sampleVerify (0, 0) (0, 5) sampleReq) ! 3
            = Some (Success False)"
    using h3 by simp
  then show ?thesis
    using h1 h2 h3 by (simp add: sample_results) (simp add: sampleVerify_def)
qed

text \<open>
  C6: the returned \<open>batchSigsSuccess\<close> is the total number of sets of the chunks on which
  the primitive returned \<open>true\<close>. The iteration for a chunk on which the primitive
  returned \<open>false\<close> or threw leaves the counter as it was, and so does the loop of
  individual verifications, whatever its verdicts are.
\<close>

theorem batchSigsSuccess_counts:
  "batchSigsSuccess (runBlsWorkReq chunkify verify t0 t1 req)
     = sum_list (map (\<lambda>c. length (allSets c))
         (filter (batchOk verify) (batchableChunks chunkify req)))
   \<and> (verify (allSets c) = Inr False \<or> (\<exists>e. verify (allSets c) = Inl e)
        \<longrightarrow> st_batchSigsSuccess (tryBatch verify st c) = st_batchSigsSuccess st)
   \<and> st_batchSigsSuccess (foldl (verifyOne verify) st items) = st_batchSigsSuccess st"
proof (intro conjI impI)
  show "batchSigsSuccess (runBlsWorkReq chunkify verify t0 t1 req)
     = sum_list (map (\<lambda>c. length (allSets c))
         (filter (batchOk verify) (batchableChunks chunkify req)))"
    by (simp only: run_batchSigsSuccess chunkWeight_fun)
  show "st_batchSigsSuccess (foldl (verifyOne verify) st items) = st_batchSigsSuccess st"
    by (rule verifyOne_batchSigsSuccess)
  assume "verify (allSets c) = Inr False \<or> (\<exists>e. verify (allSets c) = Inl e)"
  then have "batchFailed verify c" by (simp add: batchFailed_iff)
  then show "st_batchSigsSuccess (tryBatch verify st c) = st_batchSigsSuccess st"
    by (simp add: tryBatch_fail)
qed

theorem batchSigsSuccess_counts_witness:
  "batchSigsSuccess (runBlsWorkReq chunkifyMaximizeChunkSize sampleVerify (0, 0) (0, 5) sampleReq)
     = 17
   \<and> sampleVerify (allSets [(3, [3]), (5, [8])]) = Inr False
   \<and> st_batchSigsSuccess (tryBatch sampleVerify sampleState [(3, [3]), (5, [8])]) = 10"
proof -
  have h: "sampleVerify (allSets [(3, [3]), (5, [8])]) = Inr False"
    by (simp add: sampleVerify_def allSets_def)
  note C = batchSigsSuccess_counts [of chunkifyMaximizeChunkSize sampleVerify "(0, 0)" "(0, 5)"
      sampleReq "[(3, [3]), (5, [8])]" sampleState "[]"]
  have "st_batchSigsSuccess (tryBatch sampleVerify sampleState [(3, [3]), (5, [8])])
          = st_batchSigsSuccess sampleState"
    using C h by blast
  moreover have "batchSigsSuccess
      (runBlsWorkReq chunkifyMaximizeChunkSize sampleVerify (0, 0) (0, 5) sampleReq) = 17"
    using C by (simp add: sample_chunks sample_ok allSets_def)
  ultimately show ?thesis using h by (simp add: sampleState_def)
qed

text \<open>
  C7, as the code has it: the last loop goes through \<open>nonBatchableSets\<close> from front to
  back, and when it starts this list holds first the jobs that were not batchable, in
  the order of their indices, and after them the items of the failed chunks, in the
  order in which the chunks failed.
\<close>

theorem individual_order:
  "individualQueue chunkify verify req
     = map (jobItem req) (filter (notBatchable req) [0..<length req])
       @ concat (filter (batchFailed verify) (batchableChunks chunkify req))
   \<and> results (runBlsWorkReq chunkify verify t0 t1 req)
     = st_results (foldl (verifyOne verify) (batchPhase chunkify verify req)
         (individualQueue chunkify verify req))"
proof (intro conjI)
  show "individualQueue chunkify verify req
     = map (jobItem req) (filter (notBatchable req) [0..<length req])
       @ concat (filter (batchFailed verify) (batchableChunks chunkify req))"
    by (simp add: individualQueue_eq splitSets_eq demotedItems_def)
  show "results (runBlsWorkReq chunkify verify t0 t1 req)
     = st_results (foldl (verifyOne verify) (batchPhase chunkify verify req)
         (individualQueue chunkify verify req))"
    by (simp add: runBlsWorkReq_def Let_def individualQueue_def)
qed

text \<open>
  C7, as stated, fails: in the sample request jobs 1 and 4 are not batchable and the
  chunk of jobs 3 and 5 fails. The individual queue is jobs 1, 4, 3, 5, not the demoted
  jobs first.
\<close>

theorem individual_order_counterexample:
  "demotedItems chunkifyMaximizeChunkSize sampleVerify sampleReq = [(3, [3]), (5, [8])]
   \<and> snd (splitSets sampleReq) = [(1, [2]), (4, [7])]
   \<and> individualQueue chunkifyMaximizeChunkSize sampleVerify sampleReq
       = [(1, [2]), (4, [7]), (3, [3]), (5, [8])]
   \<and> individualQueue chunkifyMaximizeChunkSize sampleVerify sampleReq
       \<noteq> demotedItems chunkifyMaximizeChunkSize sampleVerify sampleReq @ snd (splitSets sampleReq)"
  by (simp add: sample_demoted sample_split sample_queue)

text \<open>
  C8: the results array and the two counters do not depend on the readings of the
  clock: two runs on the same request array, with the same chunker and the same
  primitive, agree on \<open>results\<close>, \<open>batchRetries\<close> and \<open>batchSigsSuccess\<close> whatever the
  start and end times of each run are.
\<close>

theorem runs_agree:
  "results (runBlsWorkReq chunkify verify s1 e1 req)
     = results (runBlsWorkReq chunkify verify s2 e2 req)
   \<and> batchRetries (runBlsWorkReq chunkify verify s1 e1 req)
     = batchRetries (runBlsWorkReq chunkify verify s2 e2 req)
   \<and> batchSigsSuccess (runBlsWorkReq chunkify verify s1 e1 req)
     = batchSigsSuccess (runBlsWorkReq chunkify verify s2 e2 req)"
  by (simp add: run_results run_batchRetries run_batchSigsSuccess)

text \<open>
  C9: an iteration of the batch loop leaves every position of \<open>results\<close> as it was or
  sets it to \<open>Success true\<close>. In the returned array, a result \<open>Success false\<close> or \<open>Error\<close>
  at index \<open>i\<close> is the verdict of the primitive on the sets of an item with index \<open>i\<close> of
  the individual queue; and when the chunks cover the batchable items, index \<open>i\<close> is
  then not among the items written by the batch-success path.
\<close>

theorem batch_path_only_true:
  "(resultAt (st_results (tryBatch verify st c)) i = resultAt (st_results st) i
      \<or> resultAt (st_results (tryBatch verify st c)) i = Some (Success True))
   \<and> (resultAt (results (runBlsWorkReq chunkify verify t0 t1 req)) i = Some r
        \<and> (r = Success False \<or> (\<exists>e. r = Error e))
      \<longrightarrow> (\<exists>ss. (i, ss) \<in> set (individualQueue chunkify verify req) \<and> r = verdict verify ss)
          \<and> (chunkerCovers chunkify req
                \<longrightarrow> i \<notin> fst ` set (batchWritten chunkify verify req)))"
proof (intro conjI impI)
  show "resultAt (st_results (tryBatch verify st c)) i = resultAt (st_results st) i
      \<or> resultAt (st_results (tryBatch verify st c)) i = Some (Success True)"
  proof (cases "batchOk verify c")
    case True
    show ?thesis
      using True
        resultAt_applyWrites_cases [of "st_results st" "map (\<lambda>it. (fst it, Success True)) c" i]
      by (auto simp: tryBatch_ok)
  next
    case False
    then have "batchFailed verify c" by (simp add: batchFailed_def)
    then show ?thesis by (simp add: tryBatch_fail)
  qed
next
  assume a: "resultAt (results (runBlsWorkReq chunkify verify t0 t1 req)) i = Some r
        \<and> (r = Success False \<or> (\<exists>e. r = Error e))"
  then have "r \<noteq> Success True" by auto
  then show q: "\<exists>ss. (i, ss) \<in> set (individualQueue chunkify verify req) \<and> r = verdict verify ss"
    using a run_result_origin [of chunkify verify t0 t1 req i r] by blast
  assume cov: "chunkerCovers chunkify req"
  have "distinct (map fst (batchWritten chunkify verify req @ individualQueue chunkify verify req))"
    using writes_distinct [OF cov, of verify] by (simp only: writes_idx)
  then have "fst ` set (batchWritten chunkify verify req)
               \<inter> fst ` set (individualQueue chunkify verify req) = {}"
    by simp
  moreover have "i \<in> fst ` set (individualQueue chunkify verify req)"
    using q by force
  ultimately show "i \<notin> fst ` set (batchWritten chunkify verify req)" by blast
qed

theorem batch_path_only_true_witness:
  "resultAt (results (runBlsWorkReq chunkifyMaximizeChunkSize sampleVerify (0, 0) (0, 5) sampleReq)) 3
     = Some (Success False)
   \<and> (3, [3]) \<in> set (individualQueue chunkifyMaximizeChunkSize sampleVerify sampleReq)
   \<and> chunkerCovers chunkifyMaximizeChunkSize sampleReq
   \<and> 3 \<notin> fst ` set (batchWritten chunkifyMaximizeChunkSize sampleVerify sampleReq)"
proof -
  have h1: "resultAt (results
      (runBlsWorkReq chunkifyMaximizeChunkSize sampleVerify (0, 0) (0, 5) sampleReq)) 3
        = Some (Success False)"
    by (simp add: sample_results resultAt_def)
  have h2: "chunkerCovers chunkifyMaximizeChunkSize sampleReq"
    by (simp add: chunkerCovers_def sample_chunks sample_split)
  have "3 \<notin> fst ` set (batchWritten chunkifyMaximizeChunkSize sampleVerify sampleReq)"
    using batch_path_only_true [where chunkify = chunkifyMaximizeChunkSize
        and verify = sampleVerify and ?t0.0 = "(0, 0)" and ?t1.0 = "(0, 5)" and req = sampleReq
        and i = 3 and r = "Success False"] h1 h2
    by blast
  then show ?thesis using h1 h2 by (simp add: sample_queue)
qed

text \<open>
  C10: when no job of the request is batchable, \<open>batchableSets\<close> is empty, so the chunker
  is not called and there is no chunk, whatever the chunker is. The individual queue is
  the jobs of the request in order, the result of each job is the verdict of the
  primitive on its sets, and both counters are zero.
\<close>

theorem all_non_batchable:
  assumes "\<forall>r \<in> set req. \<not> batchable (opts r)"
  shows "fst (splitSets req) = []
    \<and> batchableChunks chunkify req = []
    \<and> individualQueue chunkify verify req = map (jobItem req) [0..<length req]
    \<and> results (runBlsWorkReq chunkify verify t0 t1 req)
        = map (\<lambda>r. Some (verdict verify (sets r))) req
    \<and> batchRetries (runBlsWorkReq chunkify verify t0 t1 req) = 0
    \<and> batchSigsSuccess (runBlsWorkReq chunkify verify t0 t1 req) = 0"
proof -
  have split: "splitSets req = ([], map (jobItem req) [0..<length req])"
    by (rule splitSets_none_batchable [OF assms])
  have chunks: "batchableChunks chunkify req = []"
    by (simp add: batchableChunks_def split)
  have queue: "individualQueue chunkify verify req = map (jobItem req) [0..<length req]"
    by (simp add: individualQueue_eq split demotedItems_def chunks)
  have written: "batchWritten chunkify verify req = []"
    by (simp add: batchWritten_def chunks)
  have "results (runBlsWorkReq chunkify verify t0 t1 req)
          = applyWrites [] (map (\<lambda>i. (i, verdict verify (sets (req ! i)))) [0..<length req])"
    by (simp add: run_results allWrites_def written queue jobItem_def comp_def)
  also have "\<dots> = map (\<lambda>i. Some (verdict verify (sets (req ! i)))) [0..<length req]"
    by (rule applyWrites_upt)
  also have "\<dots> = map (\<lambda>r. Some (verdict verify (sets r))) (map (\<lambda>i. req ! i) [0..<length req])"
    by (simp add: comp_def)
  also have "\<dots> = map (\<lambda>r. Some (verdict verify (sets r))) req"
    by (simp only: map_nth)
  finally have res: "results (runBlsWorkReq chunkify verify t0 t1 req)
          = map (\<lambda>r. Some (verdict verify (sets r))) req" .
  show ?thesis
    using split chunks queue res by (simp add: run_batchRetries run_batchSigsSuccess)
qed

theorem all_non_batchable_witness:
  "\<not> batchable (opts (soloReq ! 0)) \<and> \<not> batchable (opts (soloReq ! 1))
   \<and> \<not> batchable (opts (soloReq ! 2)) \<and> length soloReq = 3
   \<and> batchableChunks chunkifyMaximizeChunkSize soloReq = []
   \<and> results (runBlsWorkReq chunkifyMaximizeChunkSize sampleVerify (0, 0) (0, 5) soloReq)
       = [Some (Success True), Some (Success False), Some (Error ''malformed'')]
   \<and> batchRetries (runBlsWorkReq chunkifyMaximizeChunkSize sampleVerify (0, 0) (0, 5) soloReq) = 0
   \<and> batchSigsSuccess (runBlsWorkReq chunkifyMaximizeChunkSize sampleVerify (0, 0) (0, 5) soloReq) = 0"
proof -
  have h: "\<forall>r \<in> set soloReq. \<not> batchable (opts r)"
    by (simp add: soloReq_def job_def)
  show ?thesis
    using all_non_batchable [OF h, of chunkifyMaximizeChunkSize sampleVerify "(0, 0)" "(0, 5)"]
    by (simp add: soloReq_def job_def verdict_def sampleVerify_def)
qed

end
